theory Spec2Isabelle
  imports Main "HOL-Library.Word"
begin

unbundle bit_operations_syntax

section \<open>Sparse ternary blind rotation: the kernel of gpu-benchmark.cu\<close>

text \<open>
  The fixed-width integers of the source are words: \<open>uint32_t\<close> and \<open>int\<close> are
  \<open>32 word\<close>, \<open>int64_t\<close> is \<open>64 word\<close>, \<open>int8_t\<close> is \<open>8 word\<close>; a signed
  value is read with \<open>sint\<close>. Arithmetic on words wraps around.
\<close>

type_synonym u32 = "32 word"
type_synonym i32 = "32 word"
type_synonym i64 = "64 word"
type_synonym i8 = "8 word"

subsection \<open>Configuration\<close>

text \<open>\<^verbatim>\<open>#define N 2048\<close>, the polynomial degree.\<close>

definition N :: nat where
  "N = 2048"

text \<open>\<^verbatim>\<open>#define PACKING_FACTOR 16\<close>: 16 trits in a 32-bit container.\<close>

definition PACKING_FACTOR :: int where
  "PACKING_FACTOR = 16"

subsection \<open>Device helper \<open>unpack_trit\<close>\<close>

text \<open>
  \<^verbatim>\<open>uint32_t mask = 0x3 << (index * 2);\<close>
  \<^verbatim>\<open>uint32_t extracted = (packed_container & mask) >> (index * 2);\<close>
  \<^verbatim>\<open>return (extracted == 2) ? -1 : (int8_t)extracted;\<close>
  The index is a position inside one container. The kernel only passes
  \<open>lwe_idx % PACKING_FACTOR\<close> of a non-negative \<open>lwe_idx\<close>, so it is a natural number
  here; a shift by 32 bits or more is undefined in the source and the theorems below
  keep the index under 16. The mask is computed on \<open>int\<close> and stored in a
  \<open>uint32_t\<close>; for the index 15 its bit pattern is \<open>0xC0000000\<close>, as on the word.
\<close>

definition unpack_trit :: "u32 \<Rightarrow> nat \<Rightarrow> i8" where
  "unpack_trit packed_container index =
     (let mask = push_bit (index * 2) (3 :: u32);
          extracted = drop_bit (index * 2) (packed_container AND mask)
      in if extracted = 2 then - 1 else ucast extracted)"

text \<open>
  The 2-bit code stored at a position of a container, written arithmetically: the
  digit number \<open>index\<close> of the container in base 4.
\<close>

definition trit_code :: "u32 \<Rightarrow> nat \<Rightarrow> nat" where
  "trit_code packed_container index = (unat packed_container div 4 ^ index) mod 4"

subsection \<open>Rotation amount of one step\<close>

text \<open>The remainder operator \<open>%\<close> of C and C++ truncates towards zero.\<close>

definition c_rem :: "int \<Rightarrow> int \<Rightarrow> int" where
  "c_rem a b = sgn a * (\<bar>a\<bar> mod \<bar>b\<bar>)"

text \<open>The quotient operator \<open>/\<close> of C and C++ truncates towards zero.\<close>

definition c_div :: "int \<Rightarrow> int \<Rightarrow> int" where
  "c_div a b = sgn a * sgn b * (\<bar>a\<bar> div \<bar>b\<bar>)"

text \<open>
  \<^verbatim>\<open>int rot = (s_i == 1) ? -a_i : a_i;\<close>
  The conditional has type \<open>int64_t\<close>; storing it in the \<open>int\<close> variable keeps its
  low 32 bits. The negation wraps around on the word, as the device does for the one
  sample without a negative, \<open>-2^63\<close>.
\<close>

definition signed_rot :: "i8 \<Rightarrow> i64 \<Rightarrow> i32" where
  "signed_rot s_i a_i = ucast (if s_i = 1 then - a_i else a_i)"

text \<open>
  \<^verbatim>\<open>rot = rot % N;\<close>
  \<^verbatim>\<open>if (rot < 0) rot += N;\<close>
\<close>

definition reduce_rot :: "i32 \<Rightarrow> int" where
  "reduce_rot rot0 =
     (let rot = c_rem (sint rot0) (int N)
      in if rot < 0 then rot + int N else rot)"

definition rotation_amount :: "i8 \<Rightarrow> i64 \<Rightarrow> int" where
  "rotation_amount s_i a_i = reduce_rot (signed_rot s_i a_i)"

subsection \<open>Strided loops of a thread block\<close>

text \<open>
  Every loop over the accumulator has the shape
  \<^verbatim>\<open>for (int i = tid; i < N; i += blockDim.x)\<close>.
  In its iteration number \<open>k\<close> the thread \<open>tid\<close> works on index \<open>tid + k * blockDim.x\<close>,
  if that is below \<open>N\<close>. \<open>pass_indices bdim k\<close> lists the indices that the threads
  \<open>0, \<dots>, bdim - 1\<close> of the block work on in that iteration, and \<open>num_passes bdim\<close> is
  the number of iterations of thread 0, the largest of the block.
\<close>

definition pass_indices :: "nat \<Rightarrow> nat \<Rightarrow> nat list" where
  "pass_indices bdim k = filter (\<lambda>i. i < N) (map (\<lambda>tid. tid + k * bdim) [0..<bdim])"

definition num_passes :: "nat \<Rightarrow> nat" where
  "num_passes bdim = (N + bdim - 1) div bdim"

text \<open>
  The loops that load the accumulator into shared memory and write it back have no
  barrier inside: each index below \<open>N\<close> is copied once, by one thread.
  \<^verbatim>\<open>s_acc[i] = d_acc[i];\<close>
\<close>

definition copy_elems :: "nat \<Rightarrow> i64 list \<Rightarrow> i64 list \<Rightarrow> i64 list" where
  "copy_elems bdim from_buf to_buf =
     fold (\<lambda>k buf. fold (\<lambda>i b. b[i := from_buf ! i]) (pass_indices bdim k) buf)
       [0..<num_passes bdim] to_buf"

subsection \<open>One pass of the rotation\<close>

text \<open>
  \<^verbatim>\<open>int src_idx = (i - rot);\<close>
  \<^verbatim>\<open>int64_t sign = 1;\<close>
  \<^verbatim>\<open>if (src_idx < 0) { src_idx += N; sign = -1; }\<close>
  The index read by the thread that computes position \<open>i\<close>, and whether the value is
  negated.
\<close>

definition src_idx :: "int \<Rightarrow> nat \<Rightarrow> nat" where
  "src_idx rot i = (if int i - rot < 0 then nat (int i - rot + int N) else nat (int i - rot))"

definition wrapped :: "int \<Rightarrow> nat \<Rightarrow> bool" where
  "wrapped rot i = (int i - rot < 0)"

text \<open>
  \<^verbatim>\<open>int64_t rotated_val = s_acc[src_idx];\<close>
  \<^verbatim>\<open>if (sign == -1) rotated_val = -rotated_val;\<close>
  \<^verbatim>\<open>int64_t new_val = rotated_val;\<close>
\<close>

definition rotated_val :: "i64 list \<Rightarrow> int \<Rightarrow> nat \<Rightarrow> i64" where
  "rotated_val s_acc rot i =
     (if wrapped rot i then - (s_acc ! src_idx rot i) else s_acc ! src_idx rot i)"

text \<open>
  One iteration of the inner loop, run by all threads of the block. Every thread reads
  its source element, then waits at the first \<open>__syncthreads()\<close>; then every thread
  stores its new value into the same buffer and waits at the second barrier.
  \<^verbatim>\<open>__syncthreads();\<close>
  \<^verbatim>\<open>s_acc[i] = new_val;\<close>
  \<^verbatim>\<open>__syncthreads();\<close>
  So the values of one pass are all computed from the buffer as the passes before it
  left it, and stored afterwards.
\<close>

definition rotation_pass :: "nat \<Rightarrow> int \<Rightarrow> nat \<Rightarrow> i64 list \<Rightarrow> i64 list" where
  "rotation_pass bdim rot k s_acc =
     (let idxs = pass_indices bdim k;
          new_vals = map (rotated_val s_acc rot) idxs
      in fold (\<lambda>(i, new_val) buf. buf[i := new_val]) (zip idxs new_vals) s_acc)"

text \<open>The shared buffer after the first \<open>m\<close> passes of the inner loop.\<close>

definition passes_upto :: "nat \<Rightarrow> int \<Rightarrow> nat \<Rightarrow> i64 list \<Rightarrow> i64 list" where
  "passes_upto bdim rot m s_acc = fold (rotation_pass bdim rot) [0..<m] s_acc"

text \<open>The inner loop of one step: all its passes in order, on the one shared buffer.\<close>

definition apply_rotation :: "nat \<Rightarrow> int \<Rightarrow> i64 list \<Rightarrow> i64 list" where
  "apply_rotation bdim rot s_acc = passes_upto bdim rot (num_passes bdim) s_acc"

subsection \<open>Memory accesses of the rotation\<close>

text \<open>
  The reads and writes of the shared buffer in the order the barriers enforce: in each
  pass the reads of all threads (line \<^verbatim>\<open>s_acc[src_idx]\<close>), then their writes
  (line \<^verbatim>\<open>s_acc[i] = new_val\<close>).
\<close>

datatype access = Rd nat | Wr nat

definition pass_accesses :: "nat \<Rightarrow> int \<Rightarrow> nat \<Rightarrow> access list" where
  "pass_accesses bdim rot k =
     map (\<lambda>i. Rd (src_idx rot i)) (pass_indices bdim k) @ map Wr (pass_indices bdim k)"

definition rotation_accesses :: "nat \<Rightarrow> int \<Rightarrow> access list" where
  "rotation_accesses bdim rot = concat (map (pass_accesses bdim rot) [0..<num_passes bdim])"

text \<open>
  \<open>read_after_write ws as\<close>: some access of \<open>as\<close> reads a location that was written
  earlier in \<open>as\<close>, or that is in \<open>ws\<close>.
\<close>

fun read_after_write :: "nat list \<Rightarrow> access list \<Rightarrow> bool" where
  "read_after_write ws [] = False"
| "read_after_write ws (Wr j # as) = read_after_write (j # ws) as"
| "read_after_write ws (Rd j # as) = (j \<in> set ws \<or> read_after_write ws as)"

subsection \<open>The kernel\<close>

text \<open>
  The key trit of a step.
  \<^verbatim>\<open>int packed_idx = lwe_idx / PACKING_FACTOR;\<close>
  \<^verbatim>\<open>int bit_offset = lwe_idx % PACKING_FACTOR;\<close>
  \<^verbatim>\<open>uint32_t packed_key = d_bk[packed_idx];\<close>
  \<^verbatim>\<open>int8_t s_i = unpack_trit(packed_key, bit_offset);\<close>
  A negative index, or one beyond the key buffer, is undefined behaviour in the source
  (a read outside the buffer or a shift by a negative amount): \<open>None\<close>.
\<close>

definition key_trit :: "u32 list \<Rightarrow> i32 \<Rightarrow> i8 option" where
  "key_trit d_bk lwe_idx =
     (let packed_idx = c_div (sint lwe_idx) PACKING_FACTOR;
          bit_offset = c_rem (sint lwe_idx) PACKING_FACTOR
      in if sint lwe_idx < 0 \<or> int (length d_bk) \<le> packed_idx then None
         else Some (unpack_trit (d_bk ! nat packed_idx) (nat bit_offset)))"

text \<open>
  One iteration of the sparse loop, on the shared buffer. The inner loop has barriers
  inside, so all threads of the block must run the same number of iterations: the block
  size must divide \<open>N\<close>. Otherwise some threads leave the loop while others wait at a
  barrier, which is undefined: \<open>None\<close>. Reading the step's inputs outside their
  buffers is \<open>None\<close> too.
\<close>

definition blind_rotation_step ::
  "nat \<Rightarrow> u32 list \<Rightarrow> i32 list \<Rightarrow> i64 list \<Rightarrow> nat \<Rightarrow> i64 list \<Rightarrow> i64 list option" where
  "blind_rotation_step bdim d_bk d_nonzero_indices d_lwe_a step s_acc =
     (if length d_nonzero_indices \<le> step \<or> length d_lwe_a \<le> step then None
      else
        let lwe_idx = d_nonzero_indices ! step;
            a_i = d_lwe_a ! step
        in case key_trit d_bk lwe_idx of
             None \<Rightarrow> None
           | Some s_i \<Rightarrow>
               if \<not> bdim dvd N then None
               else Some (apply_rotation bdim (rotation_amount s_i a_i) s_acc))"

text \<open>\<^verbatim>\<open>for (int step = 0; step < num_nonzero; step++)\<close>\<close>

fun sparse_loop ::
  "nat \<Rightarrow> u32 list \<Rightarrow> i32 list \<Rightarrow> i64 list \<Rightarrow> nat list \<Rightarrow> i64 list \<Rightarrow> i64 list option" where
  "sparse_loop bdim d_bk d_nonzero_indices d_lwe_a [] s_acc = Some s_acc"
| "sparse_loop bdim d_bk d_nonzero_indices d_lwe_a (step # steps) s_acc =
     (case blind_rotation_step bdim d_bk d_nonzero_indices d_lwe_a step s_acc of
        None \<Rightarrow> None
      | Some s_acc' \<Rightarrow> sparse_loop bdim d_bk d_nonzero_indices d_lwe_a steps s_acc')"

text \<open>
  The kernel, launched with one block of \<open>bdim\<close> threads and \<open>N\<close> elements of shared
  memory: it returns the accumulator buffer \<open>d_acc\<close> as it is after the call. A block
  of no threads is no launch, and an accumulator buffer of fewer than \<open>N\<close> elements is
  read outside its bounds: \<open>None\<close>. The shared buffer starts with unspecified contents,
  here zeros; the load overwrites every element of it.
\<close>

definition sparse_blind_rotation_kernel ::
  "nat \<Rightarrow> i64 list \<Rightarrow> u32 list \<Rightarrow> i32 list \<Rightarrow> i64 list \<Rightarrow> int \<Rightarrow> i64 list option" where
  "sparse_blind_rotation_kernel bdim d_acc d_bk d_nonzero_indices d_lwe_a num_nonzero =
     (if bdim = 0 \<or> length d_acc < N then None
      else
        let s_acc = copy_elems bdim d_acc (replicate N 0)
        in case sparse_loop bdim d_bk d_nonzero_indices d_lwe_a [0..<nat num_nonzero] s_acc of
             None \<Rightarrow> None
           | Some s_acc' \<Rightarrow> Some (copy_elems bdim s_acc' d_acc))"

subsection \<open>The rotation the specification asks for\<close>

text \<open>
  The specification's words, for comparison with the kernel: position \<open>i\<close> of the new
  accumulator is the old value at \<open>(i - rot) mod N\<close>, negated when the source index
  wrapped past 0.
\<close>

definition negacyclic_rotation :: "int \<Rightarrow> i64 list \<Rightarrow> i64 list" where
  "negacyclic_rotation rot old =
     map (\<lambda>i. if int i - rot < 0 then - (old ! nat ((int i - rot) mod int N))
              else old ! nat ((int i - rot) mod int N)) [0..<N]"

subsection \<open>Codec and fused multiply-add of the library\<close>

datatype codec_error = Invalid_Input | Invalid_Encoding | Length_Mismatch

text \<open>
  Modelled from the spec: \<open>encode_trit\<close> of the C library, whose source file is not
  among the source files. It maps -1, 0, 1 to the codes 2, 0, 1 and rejects every other
  value.
\<close>

definition encode_trit :: "int \<Rightarrow> codec_error + nat" where
  "encode_trit v =
     (if v = 0 then Inr 0 else if v = 1 then Inr 1 else if v = - 1 then Inr 2
      else Inl Invalid_Input)"

text \<open>
  Modelled from the spec: \<open>decode_trit\<close> of the C library, whose source file is not
  among the source files. It is the inverse on the codes 0, 1, 2 and rejects the reserved
  code 3 with an invalid-encoding error.
\<close>

definition decode_trit :: "nat \<Rightarrow> codec_error + int" where
  "decode_trit c =
     (if c = 0 then Inr 0 else if c = 1 then Inr 1 else if c = 2 then Inr (- 1)
      else Inl Invalid_Encoding)"

text \<open>
  Modelled from the spec: \<open>pack_trit_array\<close> of the C library, whose source file is
  not among the source files. The packed buffer is an array of bytes, as the README
  declares it (\<open>uint8_t* packed\<close>), with 4 trits in a byte: trit number \<open>i\<close> is in
  byte \<open>i div 4\<close> at the bits \<open>2 * (i mod 4)\<close> and \<open>2 * (i mod 4) + 1\<close>, the
  order of the kernel's containers. An out-of-domain trit is rejected before anything is
  written.
\<close>

definition pack_byte :: "nat list \<Rightarrow> 8 word" where
  "pack_byte codes = foldr (\<lambda>c w. word_of_nat c OR push_bit 2 w) codes 0"

fun encode_all :: "int list \<Rightarrow> codec_error + nat list" where
  "encode_all [] = Inr []"
| "encode_all (t # ts) =
     (case encode_trit t of
        Inl e \<Rightarrow> Inl e
      | Inr c \<Rightarrow> (case encode_all ts of Inl e \<Rightarrow> Inl e | Inr cs \<Rightarrow> Inr (c # cs)))"

definition pack_trit_array :: "int list \<Rightarrow> nat \<Rightarrow> codec_error + 8 word list" where
  "pack_trit_array trits n =
     (if length trits \<noteq> n then Inl Length_Mismatch
      else case encode_all trits of
             Inl e \<Rightarrow> Inl e
           | Inr codes \<Rightarrow>
               Inr (map (\<lambda>b. pack_byte (take 4 (drop (4 * b) codes))) [0..<(n + 3) div 4]))"

text \<open>
  The 2-bit code number \<open>k\<close> of a byte, and the trit number \<open>i\<close> of a packed
  buffer, decoded on demand.
\<close>

definition byte_code :: "8 word \<Rightarrow> nat \<Rightarrow> nat" where
  "byte_code b k = (unat b div 4 ^ k) mod 4"

definition trit_at :: "8 word list \<Rightarrow> nat \<Rightarrow> codec_error + int" where
  "trit_at B_trit i = decode_trit (byte_code (B_trit ! (i div 4)) (i mod 4))"

text \<open>
  Modelled from the spec: \<open>sparse_ternary_fma\<close> of the C library, whose source file is
  not among the source files; its dense scalar path. Every index from 0 to \<open>n\<close> is
  visited, the trit decoded, and the product realised as a 3-way select without a
  multiplication: 0 writes 0, +1 copies \<open>A[i]\<close>, -1 copies \<open>-A[i]\<close>. A buffer too
  short for \<open>n\<close> elements is rejected before any read or write, and a reserved code
  is an invalid-encoding error.
\<close>

definition ternary_select :: "int \<Rightarrow> i64 \<Rightarrow> i64" where
  "ternary_select t a = (if t = 0 then 0 else if t = 1 then a else - a)"

fun fma_loop :: "i64 list \<Rightarrow> 8 word list \<Rightarrow> nat list \<Rightarrow> codec_error + i64 list" where
  "fma_loop A B_trit [] = Inr []"
| "fma_loop A B_trit (i # is) =
     (case trit_at B_trit i of
        Inl e \<Rightarrow> Inl e
      | Inr t \<Rightarrow>
          (case fma_loop A B_trit is of
             Inl e \<Rightarrow> Inl e
           | Inr C \<Rightarrow> Inr (ternary_select t (A ! i) # C)))"

definition sparse_ternary_fma ::
  "i64 list \<Rightarrow> 8 word list \<Rightarrow> nat \<Rightarrow> codec_error + i64 list" where
  "sparse_ternary_fma A B_trit n =
     (if length A < n \<or> 4 * length B_trit < n then Inl Length_Mismatch
      else fma_loop A B_trit [0..<n])"

section \<open>Properties\<close>

lemma N_pos: "0 < N"
  by (simp add: N_def)

subsection \<open>The 2-bit field of a container\<close>

lemma three_mask: "(3 :: u32) = mask 2"
  by (simp add: mask_eq_exp_minus_1)

lemma extracted_eq:
  "drop_bit (index * 2) ((w :: u32) AND push_bit (index * 2) 3) = take_bit 2 (drop_bit (index * 2) w)"
  unfolding three_mask
  by (rule bit_word_eqI) (auto simp add: bit_simps dest: bit_imp_le_length)

lemma unat_extracted:
  "unat (take_bit 2 (drop_bit (index * 2) (w :: u32))) = trit_code w index"
proof -
  have "unat (take_bit 2 (drop_bit (index * 2) w)) = take_bit 2 (unat (drop_bit (index * 2) w))"
    by (simp add: unsigned_take_bit_eq)
  also have "unat (drop_bit (index * 2) w) = drop_bit (index * 2) (unat w)"
    by (simp add: unat_drop_bit_eq)
  also have "take_bit 2 (drop_bit (index * 2) (unat w)) = (unat w div 4 ^ index) mod 4"
  proof -
    have "(2::nat) ^ (2 * index) = (2 ^ 2) ^ index"
      by (rule power_mult)
    then have "(2::nat) ^ (index * 2) = 4 ^ index"
      by (simp add: mult.commute)
    then show ?thesis
      by (simp add: take_bit_eq_mod drop_bit_eq_div)
  qed
  finally show ?thesis by (simp add: trit_code_def)
qed

lemma unpack_trit_code:
  "unpack_trit w index = (if trit_code w index = 2 then - 1 else word_of_nat (trit_code w index))"
proof -
  let ?e = "take_bit 2 (drop_bit (index * 2) w)"
  have u: "unat ?e = trit_code w index" by (rule unat_extracted)
  have "(?e = 2) = (unat ?e = unat (2 :: u32))"
    by (rule word_unat_eq_iff)
  then have e: "(?e = 2) = (trit_code w index = 2)"
    by (simp add: u)
  have c: "(ucast ?e :: i8) = word_of_nat (unat ?e)"
    by simp
  have "unpack_trit w index = (if ?e = 2 then - 1 else ucast ?e)"
    by (simp only: unpack_trit_def Let_def extracted_eq)
  then show ?thesis
    by (simp only: e c u)
qed

subsection \<open>Reduction of the rotation amount\<close>

lemma c_rem_fix:
  assumes "0 < n"
  shows "(let r = c_rem a n in if r < 0 then r + n else r) = a mod n"
proof (cases "0 \<le> a")
  case True
  moreover have "0 \<le> a mod n" using assms by simp
  ultimately show ?thesis using assms
    by (cases "a = 0") (simp_all add: c_rem_def Let_def not_less)
next
  case False
  then have neg: "a < 0" by simp
  have m: "(- a) mod n = (if a mod n = 0 then 0 else n - a mod n)"
    by (simp add: zmod_zminus1_eq_if)
  have "0 \<le> a mod n" "a mod n < n" using assms by simp_all
  then show ?thesis using neg assms m
    by (auto simp add: c_rem_def Let_def)
qed

lemma take_bit_sint:
  "n \<le> LENGTH('a) \<Longrightarrow> take_bit n (sint (w :: 'a::len word)) = take_bit n (uint w)"
  by (simp add: sint_uint take_bit_signed_take_bit)

lemma sint_ucast_mod: "take_bit 11 (sint (ucast (x :: i64) :: i32)) = take_bit 11 (sint x)"
  by (simp add: take_bit_sint unsigned_ucast_eq unsigned_take_bit_eq)

lemma sint_neg_mod: "take_bit 11 (sint (- (x :: i64))) = take_bit 11 (- sint x)"
proof -
  have "take_bit 11 (sint (- x)) = take_bit 11 (uint (- x))"
    by (simp add: take_bit_sint)
  also have "\<dots> = take_bit 11 (- uint x)"
  proof -
    have "uint (- x) = take_bit 64 (- uint x)"
      by (simp add: uint_word_ariths take_bit_eq_mod)
    then show ?thesis by simp
  qed
  also have "\<dots> = take_bit 11 (- take_bit 11 (uint x))"
    by (simp add: take_bit_minus)
  also have "\<dots> = take_bit 11 (- take_bit 11 (sint x))"
    by (simp add: take_bit_sint)
  also have "\<dots> = take_bit 11 (- sint x)"
    by (simp add: take_bit_minus)
  finally show ?thesis .
qed

lemma reduce_rot_mod: "reduce_rot r = sint r mod int N"
  using c_rem_fix[of "int N" "sint r"] N_pos by (simp add: reduce_rot_def Let_def)

lemma rotation_amount_mod:
  "rotation_amount s_i a_i = (if s_i = 1 then - sint a_i else sint a_i) mod int N"
proof -
  have "sint (ucast x :: i32) mod 2048 = sint x mod 2048" for x :: i64
    using sint_ucast_mod[of x] by (simp add: take_bit_eq_mod)
  moreover have "sint (- x) mod 2048 = (- sint x) mod 2048" for x :: i64
    using sint_neg_mod[of x] by (simp add: take_bit_eq_mod)
  ultimately show ?thesis
    by (simp add: rotation_amount_def reduce_rot_mod signed_rot_def N_def)
qed

subsection \<open>Strided loops\<close>

lemma pass_indices_less: "i \<in> set (pass_indices bdim k) \<Longrightarrow> i < N"
  by (simp add: pass_indices_def)

lemma num_passes_dvd:
  assumes "bdim dvd N"
  shows "num_passes bdim = N div bdim"
proof -
  have pos: "0 < bdim" using assms N_pos by (auto intro: Nat.gr0I)
  then obtain c where c: "bdim = Suc c" by (cases bdim) auto
  from assms obtain q' where "N = bdim * q'" by (auto elim: dvdE)
  then have q: "N = q' * bdim" by (simp add: mult.commute)
  define q where "q = q'"
  note q = q[folded q_def]
  have "N + bdim - 1 = c + q * bdim" by (simp add: q c)
  moreover have "(c + q * bdim) div bdim = q + c div bdim" using pos by simp
  moreover have "c div bdim = 0" using c by simp
  moreover have "N div bdim = q" using pos by (simp add: q)
  ultimately show ?thesis by (simp add: num_passes_def)
qed

lemma pass_indices_dvd:
  assumes "bdim dvd N" "k < N div bdim"
  shows "pass_indices bdim k = [k * bdim ..< k * bdim + bdim]"
proof -
  have "Suc k * bdim \<le> (N div bdim) * bdim"
    using assms(2) by (intro mult_le_mono1) simp
  then have le: "k * bdim + bdim \<le> N" using assms(1) by (simp add: add.commute)
  have "map (\<lambda>tid. tid + k * bdim) [0..<bdim] = [k * bdim ..< k * bdim + bdim]"
    by (simp add: map_add_upt add.commute)
  moreover have "filter (\<lambda>i. i < N) [k * bdim ..< k * bdim + bdim] = [k * bdim ..< k * bdim + bdim]"
    using le by (intro filter_True) auto
  ultimately show ?thesis by (simp add: pass_indices_def)
qed

lemma in_pass_indices_dvd:
  assumes "bdim dvd N" "k < N div bdim"
  shows "j \<in> set (pass_indices bdim k) \<longleftrightarrow> k * bdim \<le> j \<and> j < k * bdim + bdim"
  by (simp add: pass_indices_dvd[OF assms])

lemma covered:
  assumes "0 < bdim" "j < N"
  shows "j div bdim < num_passes bdim \<and> j \<in> set (pass_indices bdim (j div bdim))"
proof
  obtain m where m: "N = Suc m" using N_pos by (cases N) auto
  have "j div bdim \<le> m div bdim" using assms m by (intro div_le_mono) simp
  moreover have "(m + bdim) div bdim = Suc (m div bdim)"
    using assms(1) by (simp add: div_add_self2)
  moreover have "N + bdim - 1 = m + bdim" by (simp add: m)
  ultimately show "j div bdim < num_passes bdim" by (simp only: num_passes_def)
  have eq: "j mod bdim + j div bdim * bdim = j" by simp
  have "j mod bdim \<in> set [0..<bdim]" using assms(1) by simp
  then have "j mod bdim + j div bdim * bdim \<in> (\<lambda>tid. tid + j div bdim * bdim) ` set [0..<bdim]"
    by (rule imageI)
  then have "j \<in> set (map (\<lambda>tid. tid + j div bdim * bdim) [0..<bdim])"
    by (simp only: eq set_map)
  then show "j \<in> set (pass_indices bdim (j div bdim))"
    using assms(2) by (simp add: pass_indices_def)
qed

lemma fold_update_nth:
  "j < length buf \<Longrightarrow>
   fold (\<lambda>(i, v) b. b[i := v]) (zip idxs (map f idxs)) buf ! j =
     (if j \<in> set idxs then f j else buf ! j)"
  by (induction idxs arbitrary: buf) (auto simp add: nth_list_update)

lemma fold_update_length:
  "length (fold (\<lambda>(i, v) b. b[i := v]) ps buf) = length buf"
  by (induction ps arbitrary: buf) auto

lemma fold_copy_nth:
  "j < length buf \<Longrightarrow>
   fold (\<lambda>i b. b[i := f i]) idxs buf ! j = (if j \<in> set idxs then f j else buf ! j)"
  by (induction idxs arbitrary: buf) (auto simp add: nth_list_update)

lemma fold_copy_length:
  "length (fold (\<lambda>i b. b[i := f i]) idxs buf) = length buf"
  by (induction idxs arbitrary: buf) auto

lemma fold_concat_eq: "fold f (concat xss) = fold (fold f) xss"
  by (induction xss) simp_all

lemma copy_elems_concat:
  "copy_elems bdim from_buf to_buf =
     fold (\<lambda>i b. b[i := from_buf ! i]) (concat (map (pass_indices bdim) [0..<num_passes bdim])) to_buf"
  by (simp add: copy_elems_def fold_concat_eq fold_map comp_def)

lemma length_copy_elems: "length (copy_elems bdim from_buf to_buf) = length to_buf"
  by (simp add: copy_elems_concat fold_copy_length)

lemma copy_elems_nth:
  assumes "0 < bdim" "j < length to_buf"
  shows "copy_elems bdim from_buf to_buf ! j = (if j < N then from_buf ! j else to_buf ! j)"
proof -
  have "j \<in> set (concat (map (pass_indices bdim) [0..<num_passes bdim])) \<longleftrightarrow> j < N"
    using covered[OF assms(1), of j] by (auto dest: pass_indices_less)
  then show ?thesis using assms(2) by (simp add: copy_elems_concat fold_copy_nth)
qed

lemma load_acc:
  assumes "0 < bdim" "N \<le> length d_acc"
  shows "copy_elems bdim d_acc (replicate N 0) = take N d_acc"
  using assms by (intro nth_equalityI) (simp_all add: length_copy_elems copy_elems_nth)

lemma store_acc:
  assumes "0 < bdim" "N \<le> length d_acc" "length s_acc = N"
  shows "copy_elems bdim s_acc d_acc = s_acc @ drop N d_acc"
  using assms by (intro nth_equalityI) (auto simp add: length_copy_elems copy_elems_nth nth_append)

lemma length_rotation_pass: "length (rotation_pass bdim rot k s) = length s"
  by (simp add: rotation_pass_def Let_def fold_update_length)

lemma rotation_pass_nth:
  "j < length s \<Longrightarrow>
   rotation_pass bdim rot k s ! j =
     (if j \<in> set (pass_indices bdim k) then rotated_val s rot j else s ! j)"
  by (simp add: rotation_pass_def Let_def fold_update_nth)

subsection \<open>Passes of the rotation\<close>

lemma apply_rotation_passes: "apply_rotation bdim rot s = passes_upto bdim rot (num_passes bdim) s"
  by (simp add: apply_rotation_def)

lemma passes_upto_0: "passes_upto bdim rot 0 s = s"
  by (simp add: passes_upto_def)

lemma passes_upto_Suc:
  "passes_upto bdim rot (Suc m) s = rotation_pass bdim rot m (passes_upto bdim rot m s)"
  by (simp add: passes_upto_def)

lemma length_passes_upto: "length (passes_upto bdim rot m s) = length s"
  by (induction m) (simp_all add: passes_upto_0 passes_upto_Suc length_rotation_pass)

lemma passes_upto_nth:
  assumes "bdim dvd N" "m \<le> N div bdim" "j < length s"
  shows "passes_upto bdim rot m s ! j =
           (if j < m * bdim then rotated_val (passes_upto bdim rot (j div bdim) s) rot j
            else s ! j)"
  using assms(2)
proof (induction m)
  case 0
  then show ?case by (simp add: passes_upto_0)
next
  case (Suc m)
  have pos: "0 < bdim" using assms(1) N_pos by (auto intro: Nat.gr0I)
  have m: "m < N div bdim" "m \<le> N div bdim" using Suc.prems by simp_all
  note IH = Suc.IH[OF m(2)]
  have len: "j < length (passes_upto bdim rot m s)" using assms(3) by (simp add: length_passes_upto)
  show ?case
  proof (cases "m * bdim \<le> j \<and> j < m * bdim + bdim")
    case True
    then have "j div bdim = m" using pos
      by (metis add.commute div_nat_eqI mult.commute mult_Suc_right)
    then show ?thesis using True len
      by (simp add: passes_upto_Suc rotation_pass_nth in_pass_indices_dvd[OF assms(1) m(1)])
  next
    case False
    then show ?thesis using len IH
      by (auto simp add: passes_upto_Suc rotation_pass_nth in_pass_indices_dvd[OF assms(1) m(1)])
  qed
qed

lemma apply_rotation_nth:
  assumes "bdim dvd N" "length s = N" "j < N"
  shows "apply_rotation bdim rot s ! j = rotated_val (passes_upto bdim rot (j div bdim) s) rot j"
proof -
  have "j < N div bdim * bdim" using assms by simp
  then show ?thesis using assms
    by (simp add: apply_rotation_passes num_passes_dvd passes_upto_nth)
qed

lemma length_apply_rotation: "length (apply_rotation bdim rot s) = length s"
  by (simp add: apply_rotation_passes length_passes_upto)

lemma rotated_val_0: "rotated_val s 0 i = s ! i"
  by (simp add: rotated_val_def wrapped_def src_idx_def)

lemma rotation_pass_0: "rotation_pass bdim 0 k s = s"
  by (intro nth_equalityI) (simp_all add: length_rotation_pass rotation_pass_nth rotated_val_0)

lemma apply_rotation_0: "apply_rotation bdim 0 s = s"
proof -
  have "fold (rotation_pass bdim 0) ks s = s" for ks
    by (induction ks) (simp_all add: rotation_pass_0)
  then show ?thesis by (simp add: apply_rotation_def passes_upto_def)
qed

subsection \<open>The rotation of the specification\<close>

lemma rotated_val_negacyclic:
  assumes "0 \<le> rot" "rot < int N" "i < N"
  shows "rotated_val s rot i = negacyclic_rotation rot s ! i"
proof -
  have "(int i - rot) mod int N = int i - rot + int N" if "int i - rot < 0"
  proof -
    have "(int i - rot) mod int N = (int i - rot + int N) mod int N"
      by simp
    also have "\<dots> = int i - rot + int N"
      using that assms by (intro mod_pos_pos_trivial) simp_all
    finally show ?thesis .
  qed
  moreover have "\<not> int i - rot < 0 \<Longrightarrow> (int i - rot) mod int N = int i - rot"
    using assms by simp
  ultimately show ?thesis using assms(3)
    by (simp add: rotated_val_def wrapped_def src_idx_def negacyclic_rotation_def)
qed

lemma apply_rotation_single_pass:
  assumes "0 \<le> rot" "rot < int N" "length s = N"
  shows "apply_rotation N rot s = negacyclic_rotation rot s"
proof (rule nth_equalityI)
  show "length (apply_rotation N rot s) = length (negacyclic_rotation rot s)"
    using assms(3) by (simp add: length_apply_rotation negacyclic_rotation_def)
next
  fix i assume "i < length (apply_rotation N rot s)"
  then have i: "i < N" using assms(3) by (simp add: length_apply_rotation)
  then have "apply_rotation N rot s ! i = rotated_val s rot i"
    using assms(3) by (simp add: apply_rotation_nth passes_upto_0)
  then show "apply_rotation N rot s ! i = negacyclic_rotation rot s ! i"
    using assms i by (simp add: rotated_val_negacyclic)
qed

lemma negacyclic_rotation_nth:
  assumes "0 \<le> rot" "rot < int N" "i < N"
  shows "negacyclic_rotation rot s ! i =
           (if int i < rot then - (s ! nat (int i - rot + int N)) else s ! nat (int i - rot))"
  using rotated_val_negacyclic [OF assms, of s]
  by (auto simp add: rotated_val_def wrapped_def src_idx_def)

lemma length_negacyclic_rotation: "length (negacyclic_rotation rot s) = N"
  by (simp add: negacyclic_rotation_def)

lemma negacyclic_rotation_compose:
  assumes "0 \<le> r1" "0 \<le> r2" "r1 + r2 < int N"
  shows "negacyclic_rotation r2 (negacyclic_rotation r1 s) = negacyclic_rotation (r1 + r2) s"
proof (rule nth_equalityI)
  show "length (negacyclic_rotation r2 (negacyclic_rotation r1 s)) =
        length (negacyclic_rotation (r1 + r2) s)"
    by (simp add: length_negacyclic_rotation)
next
  fix i assume "i < length (negacyclic_rotation r2 (negacyclic_rotation r1 s))"
  then have i: "i < N" by (simp add: length_negacyclic_rotation)
  have r: "r1 < int N" "r2 < int N" "0 \<le> r1 + r2" using assms by simp_all
  show "negacyclic_rotation r2 (negacyclic_rotation r1 s) ! i = negacyclic_rotation (r1 + r2) s ! i"
  proof (cases "int i < r2")
    case True
    then have j: "nat (int i - r2 + int N) < N" "\<not> int (nat (int i - r2 + int N)) < r1"
      using assms i by simp_all
    show ?thesis using True i assms r j
      by (simp add: negacyclic_rotation_nth) (simp add: algebra_simps)
  next
    case False
    then have j: "nat (int i - r2) < N" using i assms by linarith
    have e: "int (nat (int i - r2)) = int i - r2" using False by simp
    show ?thesis using False i assms r j
      by (simp add: negacyclic_rotation_nth e) (simp add: algebra_simps)
  qed
qed

text \<open>
  When the two amounts add up to \<open>N\<close> or more, the composition is the rotation by
  the sum reduced modulo \<open>N\<close> with every element negated once more.
\<close>

lemma negacyclic_rotation_compose_wrap:
  assumes "r1 < int N" "r2 < int N" "int N \<le> r1 + r2"
  shows "negacyclic_rotation r2 (negacyclic_rotation r1 s) =
           map uminus (negacyclic_rotation (r1 + r2 - int N) s)"
proof (rule nth_equalityI)
  show "length (negacyclic_rotation r2 (negacyclic_rotation r1 s)) =
        length (map uminus (negacyclic_rotation (r1 + r2 - int N) s))"
    by (simp add: length_negacyclic_rotation)
next
  fix i assume "i < length (negacyclic_rotation r2 (negacyclic_rotation r1 s))"
  then have i: "i < N" by (simp add: length_negacyclic_rotation)
  have r: "0 \<le> r1" "0 \<le> r2" "0 \<le> r1 + r2 - int N" "r1 + r2 - int N < int N"
    using assms by linarith+
  have lhs: "map uminus (negacyclic_rotation (r1 + r2 - int N) s) ! i =
          - (negacyclic_rotation (r1 + r2 - int N) s ! i)"
    using i by (simp add: length_negacyclic_rotation)
  show "negacyclic_rotation r2 (negacyclic_rotation r1 s) ! i =
        map uminus (negacyclic_rotation (r1 + r2 - int N) s) ! i"
  proof (cases "int i < r2")
    case True
    then have j: "nat (int i - r2 + int N) < N" using assms r i by linarith
    have e: "int (nat (int i - r2 + int N)) = int i - r2 + int N" using True assms r i by linarith
    show ?thesis using True i assms r j
      by (simp add: lhs negacyclic_rotation_nth e) (simp add: algebra_simps)
  next
    case False
    then have j: "nat (int i - r2) < N" using i r by linarith
    have e: "int (nat (int i - r2)) = int i - r2" using False by simp
    show ?thesis using False i assms r j
      by (simp add: lhs negacyclic_rotation_nth e) (simp add: algebra_simps)
  qed
qed

subsection \<open>The loop over the steps and the kernel\<close>

lemma blind_rotation_step_length:
  "blind_rotation_step bdim d_bk idxs as step s = Some s' \<Longrightarrow> length s' = length s"
  by (auto simp add: blind_rotation_step_def Let_def length_apply_rotation
      split: if_splits option.splits)

lemma sparse_loop_length:
  "sparse_loop bdim d_bk idxs as steps s = Some s' \<Longrightarrow> length s' = length s"
proof (induction steps arbitrary: s)
  case Nil
  then show ?case by simp
next
  case (Cons step steps)
  then show ?case
    by (auto split: option.splits dest: blind_rotation_step_length)
qed

lemma kernel_unfold:
  assumes "0 < bdim" "N \<le> length d_acc"
  shows "sparse_blind_rotation_kernel bdim d_acc d_bk idxs as n =
           map_option (\<lambda>s'. s' @ drop N d_acc)
             (sparse_loop bdim d_bk idxs as [0..<nat n] (take N d_acc))"
proof (cases "sparse_loop bdim d_bk idxs as [0..<nat n] (take N d_acc)")
  case None
  then show ?thesis using assms
    by (simp add: sparse_blind_rotation_kernel_def load_acc)
next
  case (Some s')
  then have "length s' = N" using assms(2) by (auto dest: sparse_loop_length)
  then show ?thesis using assms Some
    by (simp add: sparse_blind_rotation_kernel_def load_acc store_acc)
qed

text \<open>
  The data of the benchmark's host code: every trit of the key is -1 (containers
  \<open>0xAAAAAAAA\<close>), and the nonzero positions are the even ones.
\<close>

lemma main_key_trit:
  "key_trit (replicate 40 0xAAAAAAAA) 0 = Some (- 1)"
  "key_trit (replicate 40 0xAAAAAAAA) 2 = Some (- 1)"
  by (simp_all add: key_trit_def c_div_def c_rem_def PACKING_FACTOR_def unpack_trit_def)

subsection \<open>Passes that read what earlier passes wrote\<close>

text \<open>
  With a block of 256 threads a step has 8 passes. Position 256 is computed in the second
  pass from position 0, which the first pass has already replaced.
\<close>

lemma overwritten_256:
  assumes "length s = N"
  shows "apply_rotation 256 256 s ! 256 = - s ! 1792"
  using assms
  by (simp add: apply_rotation_nth passes_upto_nth N_def rotated_val_def wrapped_def src_idx_def
      passes_upto_0)

lemma two_steps_512:
  assumes "length s = N"
  shows "apply_rotation 256 128 (apply_rotation 256 128 s) ! 512 = s ! 0"
  using assms
  by (simp add: apply_rotation_nth passes_upto_nth N_def rotated_val_def wrapped_def src_idx_def
      passes_upto_0 length_apply_rotation)

lemma one_step_512:
  assumes "length s = N"
  shows "apply_rotation 256 256 s ! 512 = - s ! 1792"
  using assms
  by (simp add: apply_rotation_nth passes_upto_nth N_def rotated_val_def wrapped_def src_idx_def
      passes_upto_0 length_apply_rotation)

subsection \<open>Reads after writes in a list of accesses\<close>

lemma read_after_write_known:
  "j \<in> set ws \<Longrightarrow> Rd j \<in> set as \<Longrightarrow> read_after_write ws as"
proof (induction as arbitrary: ws)
  case Nil
  then show ?case by simp
next
  case (Cons a as)
  then show ?case by (cases a) auto
qed

lemma read_after_write_append:
  "Wr j \<in> set xs \<Longrightarrow> Rd j \<in> set ys \<Longrightarrow> read_after_write ws (xs @ ys)"
proof (induction xs arbitrary: ws)
  case Nil
  then show ?case by simp
next
  case (Cons a xs)
  show ?case
  proof (cases a)
    case (Rd k)
    then show ?thesis using Cons by auto
  next
    case (Wr k)
    show ?thesis
    proof (cases "k = j")
      case True
      have "Rd j \<in> set (xs @ ys)" using Cons.prems(2) by simp
      then show ?thesis
        using Wr True read_after_write_known [of j "j # ws" "xs @ ys"] by simp
    next
      case False
      then show ?thesis using Wr Cons by auto
    qed
  qed
qed

lemma read_after_write_writes: "\<not> read_after_write ws (map Wr xs)"
  by (induction xs arbitrary: ws) auto

lemma read_after_write_split_map:
  "read_after_write ws (map (\<lambda>i. Rd (f i)) xs @ as) =
     ((\<exists>i \<in> set xs. f i \<in> set ws) \<or> read_after_write ws as)"
  by (induction xs) auto

lemma single_pass_no_hazard: "\<not> read_after_write [] (rotation_accesses N rot)"
proof -
  have "num_passes N = 1" using N_pos by (simp add: num_passes_dvd)
  then show ?thesis
    by (simp add: rotation_accesses_def pass_accesses_def read_after_write_split_map
        read_after_write_writes)
qed

lemma read_after_write_iff:
  "read_after_write ws as \<longleftrightarrow>
     (\<exists>xs j ys. as = xs @ Rd j # ys \<and> (j \<in> set ws \<or> Wr j \<in> set xs))"
proof (induction as arbitrary: ws)
  case Nil
  then show ?case by simp
next
  case (Cons a as)
  show ?case
  proof (cases a)
    case (Rd k)
    show ?thesis
    proof
      assume "read_after_write ws (a # as)"
      then consider "k \<in> set ws" | "read_after_write ws as" using Rd by auto
      then show "\<exists>xs j ys. a # as = xs @ Rd j # ys \<and> (j \<in> set ws \<or> Wr j \<in> set xs)"
      proof cases
        case 1
        then have "a # as = [] @ Rd k # as \<and> (k \<in> set ws \<or> Wr k \<in> set [])"
          using Rd by simp
        then show ?thesis by blast
      next
        case 2
        then obtain xs j ys where "as = xs @ Rd j # ys" "j \<in> set ws \<or> Wr j \<in> set xs"
          using Cons.IH by blast
        then have "a # as = (a # xs) @ Rd j # ys \<and> (j \<in> set ws \<or> Wr j \<in> set (a # xs))"
          by auto
        then show ?thesis by blast
      qed
    next
      assume "\<exists>xs j ys. a # as = xs @ Rd j # ys \<and> (j \<in> set ws \<or> Wr j \<in> set xs)"
      then obtain xs j ys where e: "a # as = xs @ Rd j # ys" and h: "j \<in> set ws \<or> Wr j \<in> set xs"
        by blast
      show "read_after_write ws (a # as)"
      proof (cases xs)
        case Nil
        then show ?thesis using e h Rd by auto
      next
        case (Cons x xs')
        then have "as = xs' @ Rd j # ys" "j \<in> set ws \<or> Wr j \<in> set xs'"
          using e h Rd by auto
        then have "read_after_write ws as" using Cons.IH by blast
        then show ?thesis using Rd by simp
      qed
    qed
  next
    case (Wr k)
    show ?thesis
    proof
      assume "read_after_write ws (a # as)"
      then have "read_after_write (k # ws) as" using Wr by simp
      then obtain xs j ys where "as = xs @ Rd j # ys" "j \<in> set (k # ws) \<or> Wr j \<in> set xs"
        using Cons.IH by blast
      then have "a # as = (a # xs) @ Rd j # ys \<and> (j \<in> set ws \<or> Wr j \<in> set (a # xs))"
        using Wr by auto
      then show "\<exists>xs j ys. a # as = xs @ Rd j # ys \<and> (j \<in> set ws \<or> Wr j \<in> set xs)"
        by blast
    next
      assume "\<exists>xs j ys. a # as = xs @ Rd j # ys \<and> (j \<in> set ws \<or> Wr j \<in> set xs)"
      then obtain xs j ys where e: "a # as = xs @ Rd j # ys" and h: "j \<in> set ws \<or> Wr j \<in> set xs"
        by blast
      from e Wr obtain xs' where x: "xs = a # xs'" "as = xs' @ Rd j # ys"
        by (cases xs) auto
      then have "j \<in> set (k # ws) \<or> Wr j \<in> set xs'" using h Wr by auto
      then have "read_after_write (k # ws) as" using x Cons.IH by blast
      then show "read_after_write ws (a # as)" using Wr by simp
    qed
  qed
qed

subsection \<open>The fused multiply-add\<close>

lemma trit_at_cases:
  assumes "trit_at B i \<noteq> Inl Invalid_Encoding"
  shows "trit_at B i = Inr 0 \<or> trit_at B i = Inr 1 \<or> trit_at B i = Inr (- 1)"
  using assms by (simp add: trit_at_def decode_trit_def split: if_splits)

lemma ternary_select_mult:
  "t = 0 \<or> t = 1 \<or> t = - 1 \<Longrightarrow> ternary_select t a = a * word_of_int t"
  by (auto simp add: ternary_select_def)

lemma fma_loop_products:
  assumes "\<forall>i \<in> set is. trit_at B i \<noteq> Inl Invalid_Encoding"
  shows "\<exists>C. fma_loop A B is = Inr C \<and> length C = length is \<and>
           (\<forall>k < length is. \<exists>t. trit_at B (is ! k) = Inr t \<and> C ! k = A ! (is ! k) * word_of_int t)"
  using assms
proof (induction "is")
  case Nil
  then show ?case by simp
next
  case (Cons i "is")
  then obtain C where C: "fma_loop A B is = Inr C" "length C = length is"
    "\<forall>k < length is. \<exists>t. trit_at B (is ! k) = Inr t \<and> C ! k = A ! (is ! k) * word_of_int t"
    by auto
  from Cons.prems have "trit_at B i \<noteq> Inl Invalid_Encoding" by simp
  then obtain t where t: "trit_at B i = Inr t" "t = 0 \<or> t = 1 \<or> t = - 1"
    using trit_at_cases by blast
  have "\<exists>t'. trit_at B ((i # is) ! k) = Inr t' \<and>
           (ternary_select t (A ! i) # C) ! k = A ! ((i # is) ! k) * word_of_int t'"
    if "k < length (i # is)" for k
  proof (cases k)
    case 0
    then show ?thesis using t by (simp add: ternary_select_mult)
  next
    case (Suc k')
    then show ?thesis using that C(3) by simp
  qed
  then show ?case using C t by simp
qed

section \<open>The claims\<close>

subsection \<open>Decoding a trit\<close>

text \<open>
  Claim C6. For every packed container and every trit position inside it, decoding
  follows the canonical mapping: the code 0 gives the trit 0, the code 1 gives +1 and
  the code 2 gives -1.
\<close>

theorem unpack_trit_canonical:
  assumes "index < 16"
  shows "(trit_code w index = 0 \<longrightarrow> unpack_trit w index = 0) \<and>
         (trit_code w index = 1 \<longrightarrow> unpack_trit w index = 1) \<and>
         (trit_code w index = 2 \<longrightarrow> unpack_trit w index = - 1)"
  by (simp add: unpack_trit_code)

theorem unpack_trit_canonical_witness:
  "(0::nat) < 16 \<and> trit_code 36 0 = 0 \<and> unpack_trit 36 0 = 0 \<and>
   (1::nat) < 16 \<and> trit_code 36 1 = 1 \<and> unpack_trit 36 1 = 1 \<and>
   (2::nat) < 16 \<and> trit_code 36 2 = 2 \<and> unpack_trit 36 2 = - 1"
proof -
  have c: "trit_code 36 0 = 0" "trit_code 36 1 = 1" "trit_code 36 2 = 2"
    by (simp_all add: trit_code_def)
  have i: "(0::nat) < 16" "(1::nat) < 16" "(2::nat) < 16"
    by simp_all
  show ?thesis
    using unpack_trit_canonical [OF i(1), of 36] unpack_trit_canonical [OF i(2), of 36]
      unpack_trit_canonical [OF i(3), of 36] c
    by simp
qed

text \<open>
  Claim C3, as stated: decoding rejects the reserved code 3 with an invalid-encoding
  error and never returns a value for it. \<open>unpack_trit\<close> has no error result. At the
  container 3, position 0, the code is the reserved one, which the library's decode
  rejects; \<open>unpack_trit\<close> returns the value 3, and the kernel goes on with the
  rotation amount of the trit -1.
\<close>

theorem unpack_trit_reserved_counterexample:
  "trit_code 3 0 = 3 \<and> decode_trit (trit_code 3 0) = Inl Invalid_Encoding \<and>
   unpack_trit 3 0 = 3 \<and> key_trit [3] 0 = Some 3 \<and>
   rotation_amount 3 256 = rotation_amount (- 1) 256"
  by (simp add: trit_code_def decode_trit_def unpack_trit_def key_trit_def c_div_def c_rem_def
      PACKING_FACTOR_def rotation_amount_mod)

text \<open>
  Claim C3, amended: \<open>unpack_trit\<close> does not reject the reserved code 3. For every
  container and position that hold the code 3 it returns the \<open>int8_t\<close> value 3, the
  code itself, and signals nothing; the kernel then rotates by plus the sample, as it
  does for the trit -1.
\<close>

theorem unpack_trit_reserved:
  assumes "index < 16" and "trit_code w index = 3"
  shows "decode_trit (trit_code w index) = Inl Invalid_Encoding \<and> unpack_trit w index = 3 \<and>
         rotation_amount (unpack_trit w index) a_i = rotation_amount (- 1) a_i"
  using assms(2) by (simp add: unpack_trit_code decode_trit_def rotation_amount_mod)

theorem unpack_trit_reserved_witness:
  "(15::nat) < 16 \<and> trit_code 0xC0000000 15 = 3 \<and>
   decode_trit (trit_code 0xC0000000 15) = Inl Invalid_Encoding \<and>
   unpack_trit 0xC0000000 15 = 3 \<and>
   rotation_amount (unpack_trit 0xC0000000 15) 256 = rotation_amount (- 1) 256"
proof -
  have i: "(15::nat) < 16" by simp
  have c: "trit_code 0xC0000000 15 = 3" by (simp add: trit_code_def)
  from unpack_trit_reserved [OF i c, of 256] i c
  show ?thesis by blast
qed

subsection \<open>The rotation amount\<close>

text \<open>
  Claim C7. For every 64-bit rotation sample and every key trit, the rotation amount
  that indexes the accumulator lies in \<open>[0, N)\<close> and is congruent modulo \<open>N\<close> to the
  signed amount chosen by the trit, minus the sample for +1 and the sample otherwise,
  although only the low 32 bits of the signed amount are kept before the reduction.
\<close>

theorem rotation_amount_range:
  "0 \<le> rotation_amount s_i a_i \<and> rotation_amount s_i a_i < int N \<and>
   rotation_amount s_i a_i mod int N = (if s_i = 1 then - sint a_i else sint a_i) mod int N"
  using N_pos by (simp add: rotation_amount_mod)

theorem rotation_amount_range_witness:
  "0 \<le> rotation_amount 1 4294967301 \<and> rotation_amount 1 4294967301 < int N \<and>
   rotation_amount 1 4294967301 mod int N = (- 4294967301) mod int N"
  using rotation_amount_range [of 1 4294967301] by simp

text \<open>
  Claim C4. In every step, when the decoded key trit at the step's position is +1 the
  rotation is applied with minus the step's sample as its amount, and when the trit is
  -1 with plus the sample; the amount is taken modulo \<open>N\<close>.
\<close>

theorem blind_rotation_step_sign:
  assumes "step < length d_nonzero_indices" and "step < length d_lwe_a" and "bdim dvd N"
  shows "(key_trit d_bk (d_nonzero_indices ! step) = Some 1 \<longrightarrow>
            blind_rotation_step bdim d_bk d_nonzero_indices d_lwe_a step s_acc =
              Some (apply_rotation bdim ((- sint (d_lwe_a ! step)) mod int N) s_acc)) \<and>
         (key_trit d_bk (d_nonzero_indices ! step) = Some (- 1) \<longrightarrow>
            blind_rotation_step bdim d_bk d_nonzero_indices d_lwe_a step s_acc =
              Some (apply_rotation bdim (sint (d_lwe_a ! step) mod int N) s_acc))"
  using assms by (simp add: blind_rotation_step_def Let_def rotation_amount_mod)

theorem blind_rotation_step_sign_witness:
  "1 < length [0, 1 :: i32] \<and> 1 < length [5, 5 :: i64] \<and> (256::nat) dvd N \<and>
   key_trit [0xAAAAAAA9] ([0, 1] ! 0) = Some 1 \<and>
   blind_rotation_step 256 [0xAAAAAAA9] [0, 1] [5, 5] 0 (replicate 2048 7) =
     Some (apply_rotation 256 2043 (replicate 2048 7)) \<and>
   key_trit [0xAAAAAAA9] ([0, 1] ! 1) = Some (- 1) \<and>
   blind_rotation_step 256 [0xAAAAAAA9] [0, 1] [5, 5] 1 (replicate 2048 7) =
     Some (apply_rotation 256 5 (replicate 2048 7))"
proof -
  have k: "key_trit [0xAAAAAAA9] ([0, 1] ! 0) = Some 1"
    "key_trit [0xAAAAAAA9] ([0, 1] ! 1) = Some (- 1)"
    by (simp_all add: key_trit_def c_div_def c_rem_def PACKING_FACTOR_def unpack_trit_def)
  have d: "(256::nat) dvd N" by (simp add: N_def)
  have l: "0 < length [0, 1 :: i32]" "0 < length [5, 5 :: i64]"
    "1 < length [0, 1 :: i32]" "1 < length [5, 5 :: i64]"
    by simp_all
  show ?thesis
    using blind_rotation_step_sign [OF l(1) l(2) d, of "[0xAAAAAAA9]" "replicate 2048 7"]
      blind_rotation_step_sign [OF l(3) l(4) d, of "[0xAAAAAAA9]" "replicate 2048 7"] k d
    by (simp add: N_def)
qed

subsection \<open>One step on the accumulator\<close>

text \<open>
  Claim C9. When the rotation sample of a step is congruent to 0 modulo \<open>N\<close>, the
  step leaves every element of the accumulator as it was, whatever the key trit at its
  position decodes to.
\<close>

theorem blind_rotation_step_zero_sample:
  assumes "step < length d_nonzero_indices" and "step < length d_lwe_a"
    and "key_trit d_bk (d_nonzero_indices ! step) = Some s_i"
    and "bdim dvd N"
    and "sint (d_lwe_a ! step) mod int N = 0"
  shows "blind_rotation_step bdim d_bk d_nonzero_indices d_lwe_a step s_acc = Some s_acc"
proof -
  have "rotation_amount s_i (d_lwe_a ! step) = 0"
    using assms(5) by (simp add: rotation_amount_mod zmod_zminus1_eq_if)
  then show ?thesis using assms(1-4)
    by (simp add: blind_rotation_step_def Let_def apply_rotation_0)
qed

theorem blind_rotation_step_zero_sample_witness:
  "key_trit [0xAAAAAAA9] ([0, 1] ! 0) = Some 1 \<and>
   key_trit [0xAAAAAAA9] ([0, 1] ! 1) = Some (- 1) \<and>
   (256::nat) dvd N \<and>
   sint ([2048, - 4096 :: i64] ! 0) mod int N = 0 \<and>
   sint ([2048, - 4096 :: i64] ! 1) mod int N = 0 \<and>
   blind_rotation_step 256 [0xAAAAAAA9] [0, 1] [2048, - 4096] 0 (replicate 2048 7) =
     Some (replicate 2048 7) \<and>
   blind_rotation_step 256 [0xAAAAAAA9] [0, 1] [2048, - 4096] 1 (replicate 2048 7) =
     Some (replicate 2048 7)"
proof -
  have k: "key_trit [0xAAAAAAA9] ([0, 1] ! 0) = Some 1"
    "key_trit [0xAAAAAAA9] ([0, 1] ! 1) = Some (- 1)"
    by (simp_all add: key_trit_def c_div_def c_rem_def PACKING_FACTOR_def unpack_trit_def)
  have d: "(256::nat) dvd N" by (simp add: N_def)
  have a: "sint ([2048, - 4096 :: i64] ! 0) mod int N = 0"
    "sint ([2048, - 4096 :: i64] ! 1) mod int N = 0"
    by (simp_all add: N_def)
  have l: "0 < length [0, 1 :: i32]" "0 < length [2048, - 4096 :: i64]"
    "1 < length [0, 1 :: i32]" "1 < length [2048, - 4096 :: i64]"
    by simp_all
  from blind_rotation_step_zero_sample [OF l(1) l(2) k(1) d a(1)]
    blind_rotation_step_zero_sample [OF l(3) l(4) k(2) d a(2)] k d a
  show ?thesis by blast
qed

text \<open>
  Claim C1, on the input of the benchmark: an accumulator of 2048 ones, a key whose trits
  are all -1, one step at position 0 with the sample 256, a block of 256 threads. The
  claim asks for the old value at position \<open>(256 - 256) mod N = 0\<close>, not negated, at
  position 256, which is 1. The kernel stores -1 there: the second pass reads position 0
  after the first pass has stored the negated old value of position 1792 in it.
\<close>

theorem kernel_reads_overwritten_source:
  "map_option (\<lambda>acc. acc ! 256)
     (sparse_blind_rotation_kernel 256 (replicate 2048 1) (replicate 40 0xAAAAAAAA) [0] [256] 1)
     = Some (- 1) \<and>
   negacyclic_rotation 256 (replicate 2048 1) ! 256 = 1"
proof -
  have "apply_rotation 256 256 (replicate 2048 1) ! 256 = - 1"
    using overwritten_256 [of "replicate 2048 1"] by (simp add: N_def)
  moreover have "rotation_amount (- 1) 256 = 256"
    by (simp add: rotation_amount_mod N_def)
  moreover have "(256 :: nat) dvd N" by (simp add: N_def)
  ultimately have "map_option (\<lambda>acc. acc ! 256)
     (sparse_blind_rotation_kernel 256 (replicate 2048 1) (replicate 40 0xAAAAAAAA) [0] [256] 1)
     = Some (- 1)"
    by (simp add: kernel_unfold N_def blind_rotation_step_def main_key_trit nth_append
        length_apply_rotation)
  moreover have "negacyclic_rotation 256 (replicate 2048 1) ! 256 = 1"
    by (simp add: negacyclic_rotation_def N_def)
  ultimately show ?thesis by simp
qed

text \<open>
  Claim C2, on the same launch: in a step with the rotation amount 256 and a block of
  256 threads, position 0 of the shared buffer is written in the first pass and read in
  the second. The step has no second buffer.
\<close>

theorem rotation_reads_after_write:
  "read_after_write [] (rotation_accesses 256 256)"
proof -
  have d: "(256::nat) dvd N" by (simp add: N_def)
  have n: "num_passes 256 = 8" by (simp add: num_passes_dvd [OF d] N_def)
  have p0: "pass_indices 256 0 = [0..<256]"
    using pass_indices_dvd [OF d, of 0] by (simp add: N_def)
  have p1: "pass_indices 256 1 = [256..<512]"
    using pass_indices_dvd [OF d, of 1] by (simp add: N_def)
  have "Wr 0 \<in> Wr ` {0..<256}"
    by simp
  then have w: "Wr 0 \<in> set (pass_accesses 256 256 0)"
    unfolding pass_accesses_def p0 set_append set_map set_upt by (rule UnI2)
  have "Rd 0 = Rd (src_idx 256 256)"
    by (simp add: src_idx_def)
  moreover have "(256::nat) \<in> {256..<512}"
    by simp
  ultimately have "Rd 0 \<in> (\<lambda>i. Rd (src_idx 256 i)) ` {256..<512}"
    by (rule image_eqI)
  then have r: "Rd 0 \<in> set (pass_accesses 256 256 1)"
    unfolding pass_accesses_def p1 set_append set_map set_upt by (rule UnI1)
  have "\<exists>rest. rotation_accesses 256 256 =
          pass_accesses 256 256 0 @ (pass_accesses 256 256 1 @ rest)"
    by (simp add: rotation_accesses_def n upt_conv_Cons)
  then obtain rest where
    "rotation_accesses 256 256 = pass_accesses 256 256 0 @ (pass_accesses 256 256 1 @ rest)" ..
  moreover have "read_after_write [] (pass_accesses 256 256 0 @ (pass_accesses 256 256 1 @ rest))"
    using w r by (intro read_after_write_append [of 0]) simp_all
  ultimately show ?thesis by simp
qed

text \<open>
  Claim C5, on the input of the benchmark with a block of 256 threads: two steps with the
  sample 128 each leave 1 at position 512, one step with the combined sample 256 leaves
  -1 there. The amounts add up to less than \<open>N\<close>, so no sign is owed to the
  composition.
\<close>

theorem kernel_two_steps_differ:
  "map_option (\<lambda>acc. acc ! 512)
     (sparse_blind_rotation_kernel 256 (replicate 2048 1) (replicate 40 0xAAAAAAAA)
        [0, 2] [128, 128] 2) = Some 1 \<and>
   map_option (\<lambda>acc. acc ! 512)
     (sparse_blind_rotation_kernel 256 (replicate 2048 1) (replicate 40 0xAAAAAAAA)
        [0] [256] 1) = Some (- 1)"
proof -
  have r: "rotation_amount (- 1) 128 = 128" "rotation_amount (- 1) 256 = 256"
    by (simp_all add: rotation_amount_mod N_def)
  have d: "(256 :: nat) dvd N" by (simp add: N_def)
  have "apply_rotation 256 128 (apply_rotation 256 128 (replicate 2048 1)) ! 512 = 1"
    using two_steps_512 [of "replicate 2048 1"] by (simp add: N_def)
  then have "map_option (\<lambda>acc. acc ! 512)
     (sparse_blind_rotation_kernel 256 (replicate 2048 1) (replicate 40 0xAAAAAAAA)
        [0, 2] [128, 128] 2) = Some 1"
    using r d
    by (simp add: kernel_unfold N_def blind_rotation_step_def main_key_trit nth_append
        length_apply_rotation upt_rec)
  moreover have "apply_rotation 256 256 (replicate 2048 1) ! 512 = - 1"
    using one_step_512 [of "replicate 2048 1"] by (simp add: N_def)
  then have "map_option (\<lambda>acc. acc ! 512)
     (sparse_blind_rotation_kernel 256 (replicate 2048 1) (replicate 40 0xAAAAAAAA)
        [0] [256] 1) = Some (- 1)"
    using r d
    by (simp add: kernel_unfold N_def blind_rotation_step_def main_key_trit nth_append
        length_apply_rotation)
  ultimately show ?thesis by simp
qed

subsection \<open>The kernel without steps\<close>

text \<open>
  Claim C10. When the count of nonzero positions is 0, the kernel leaves the accumulator
  buffer as it was: every element has its value from before the call.
\<close>

theorem kernel_no_steps:
  assumes "0 < bdim" and "N \<le> length d_acc"
  shows "sparse_blind_rotation_kernel bdim d_acc d_bk d_nonzero_indices d_lwe_a 0 = Some d_acc"
  using assms by (simp add: kernel_unfold)

theorem kernel_no_steps_witness:
  "(0::nat) < 256 \<and> N \<le> length (replicate 2048 (1 :: i64)) \<and>
   sparse_blind_rotation_kernel 256 (replicate 2048 1) (replicate 40 0xAAAAAAAA) [] [] 0
     = Some (replicate 2048 1)"
proof -
  have b: "(0::nat) < 256" by simp
  have l: "N \<le> length (replicate 2048 (1 :: i64))" by (simp add: N_def)
  show ?thesis using kernel_no_steps [OF b l] b l by simp
qed

subsection \<open>The fused multiply-add of the library\<close>

text \<open>
  Claim C8. \<open>sparse_ternary_fma\<close> computes \<open>C[i] = A[i] * decode(B_trit[i])\<close> for
  every index below \<open>N\<close>; for \<open>N = 8\<close>, \<open>A = [1,2,3,4,5,6,7,8]\<close> and the trits
  \<open>[+1,0,-1,0,0,+1,0,-1]\<close> the output is \<open>[1,0,-3,0,0,6,0,-8]\<close>.
\<close>

theorem sparse_ternary_fma_products:
  "(length A = n \<and> n \<le> 4 * length B_trit \<and> (\<forall>i < n. trit_at B_trit i \<noteq> Inl Invalid_Encoding) \<longrightarrow>
      (\<exists>C. sparse_ternary_fma A B_trit n = Inr C \<and> length C = n \<and>
         (\<forall>i < n. \<exists>t. trit_at B_trit i = Inr t \<and> C ! i = A ! i * word_of_int t))) \<and>
   (\<exists>B. pack_trit_array [1, 0, - 1, 0, 0, 1, 0, - 1] 8 = Inr B \<and>
      sparse_ternary_fma [1, 2, 3, 4, 5, 6, 7, 8] B 8 = Inr [1, 0, - 3, 0, 0, 6, 0, - 8])"
proof (intro conjI impI)
  assume h: "length A = n \<and> n \<le> 4 * length B_trit \<and>
             (\<forall>i < n. trit_at B_trit i \<noteq> Inl Invalid_Encoding)"
  then have "\<forall>i \<in> set [0..<n]. trit_at B_trit i \<noteq> Inl Invalid_Encoding" by simp
  from fma_loop_products [OF this, of A] h
  show "\<exists>C. sparse_ternary_fma A B_trit n = Inr C \<and> length C = n \<and>
         (\<forall>i < n. \<exists>t. trit_at B_trit i = Inr t \<and> C ! i = A ! i * word_of_int t)"
    by (auto simp add: sparse_ternary_fma_def)
next
  have "pack_trit_array [1, 0, - 1, 0, 0, 1, 0, - 1] 8 = Inr [33, 132]"
    by (simp add: pack_trit_array_def encode_trit_def pack_byte_def upt_conv_Cons)
  moreover have "sparse_ternary_fma [1, 2, 3, 4, 5, 6, 7, 8] [33, 132] 8 =
                   Inr [1, 0, - 3, 0, 0, 6, 0, - 8]"
    by (simp add: sparse_ternary_fma_def upt_conv_Cons trit_at_def byte_code_def decode_trit_def
        ternary_select_def)
  ultimately show "\<exists>B. pack_trit_array [1, 0, - 1, 0, 0, 1, 0, - 1] 8 = Inr B \<and>
      sparse_ternary_fma [1, 2, 3, 4, 5, 6, 7, 8] B 8 = Inr [1, 0, - 3, 0, 0, 6, 0, - 8]"
    by simp
qed

theorem sparse_ternary_fma_products_witness:
  "length [1, 2, 3, 4, 5, 6, 7, 8 :: i64] = 8 \<and> (8::nat) \<le> 4 * length [33, 132 :: 8 word] \<and>
   list_all (\<lambda>i. trit_at [33, 132] i \<noteq> Inl Invalid_Encoding) [0..<8] \<and>
   (\<exists>C. sparse_ternary_fma [1, 2, 3, 4, 5, 6, 7, 8] [33, 132] 8 = Inr C \<and> length C = 8 \<and>
      (\<forall>i < 8. \<exists>t. trit_at [33, 132] i = Inr t \<and>
         C ! i = [1, 2, 3, 4, 5, 6, 7, 8] ! i * word_of_int t))"
proof -
  have a: "list_all (\<lambda>i. trit_at [33, 132] i \<noteq> Inl Invalid_Encoding) [0..<8]"
    by (simp add: upt_conv_Cons trit_at_def byte_code_def decode_trit_def)
  then have h: "length [1, 2, 3, 4, 5, 6, 7, 8 :: i64] = 8 \<and>
     (8::nat) \<le> 4 * length [33, 132 :: 8 word] \<and>
     (\<forall>i < 8. trit_at [33, 132] i \<noteq> Inl Invalid_Encoding)"
    by (simp add: list_all_iff)
  from sparse_ternary_fma_products [of "[1, 2, 3, 4, 5, 6, 7, 8]" 8 "[33, 132]"] h a
  show ?thesis by blast
qed

end
